theory Spec2Isabelle
  imports Complex_Main
begin

section \<open>Values and handler outcomes\<close>

text \<open>
  The listeners of \<^verbatim>\<open>tauriCommands.ts\<close> test the value a handler produced with
  \<^verbatim>\<open>if (isApproved)\<close> and pass that same value on to \<^verbatim>\<open>invoke\<close>. The declared
  handler types promise a boolean (\<open>JBool\<close>); the doc comment of
  \<^verbatim>\<open>handlePayInvoiceRequests\<close> speaks of the strings "paid", "failed" and "denied"
  (\<open>JStr\<close>); a handler that returns nothing yields \<open>JUndefined\<close>. \<open>truthy\<close> is
  JavaScript's ToBoolean on these values.
\<close>

datatype jsval = JBool bool | JStr string | JUndefined

fun truthy :: "jsval \<Rightarrow> bool" where
  "truthy (JBool b) = b"
| "truthy (JStr s) = (s \<noteq> [])"
| "truthy JUndefined = False"

text \<open>
  What \<^verbatim>\<open>await handler(...)\<close> can do: produce a value, throw (or reject), or never
  settle. A handler is represented by what its invocation does for a given request; a
  dispatch invokes each entry of the registry at most once.
\<close>

datatype outcome = Returns jsval | Throws | NeverSettles

type_synonym 'p handler = "'p \<Rightarrow> outcome"

text \<open>
  Modelled from the spec: \<^verbatim>\<open>UnsignedNostrEvent\<close> is declared in \<^verbatim>\<open>./types\<close>, which is
  not among the sources; the spec lists its fields (kind, content, tags, pubkey, id).
  The broker reads only \<open>id\<close>, named \<open>event_id\<close> here.
\<close>

record UnsignedNostrEvent =
  event_id :: string
  pubkey :: string
  kind :: int
  content :: string
  tags :: "string list list"

type_synonym SignEventRequestHandler = "(UnsignedNostrEvent \<times> string) handler"
type_synonym PayInvoiceRequestHandler = "string handler"

section \<open>Registries\<close>

text \<open>
  A registry is a JavaScript object with integer keys. Its own properties are kept in
  ascending key order, which is the order \<^verbatim>\<open>Object.values\<close> enumerates them in, so
  the model is an association list in that order.
\<close>

type_synonym 'h registry = "(nat \<times> 'h) list"

definition keys :: "'h registry \<Rightarrow> nat list" where
  "keys reg = map fst reg"

definition Object_values :: "'h registry \<Rightarrow> 'h list" where
  "Object_values reg = map snd reg"

text \<open>\<^verbatim>\<open>reg[k]\<close>: the stored handler, or \<open>None\<close> for \<^verbatim>\<open>undefined\<close>.\<close>

definition lookup :: "'h registry \<Rightarrow> nat \<Rightarrow> 'h option" where
  "lookup reg k = map_of reg k"

text \<open>\<^verbatim>\<open>reg[k] = h\<close>: overwrite the property if it exists, create it otherwise.\<close>

fun assign :: "nat \<Rightarrow> 'h \<Rightarrow> 'h registry \<Rightarrow> 'h registry" where
  "assign k h [] = [(k, h)]"
| "assign k h ((k', h') # reg) =
     (if k < k' then (k, h) # (k', h') # reg
      else if k = k' then (k, h) # reg
      else (k', h') # assign k h reg)"

text \<open>\<^verbatim>\<open>delete reg[k]\<close>: never throws; an absent key is left absent.\<close>

definition delete :: "nat \<Rightarrow> 'h registry \<Rightarrow> 'h registry" where
  "delete k reg = filter (\<lambda>kv. fst kv \<noteq> k) reg"

section \<open>The dispatch loops\<close>

text \<open>
  The body shared by both listeners:
  \<^verbatim>\<open>
  let isApproved = false;
  for (const handler of Object.values(handlers)) {
    isApproved = await handler(payload);
    if (isApproved) break;
  }
  \<close>
  \<open>poll\<close> returns how the loop ended and the handlers it invoked, in order.
\<close>

datatype loop_exit = Finished jsval | Rejected | Pending

fun poll :: "'p handler list \<Rightarrow> 'p \<Rightarrow> jsval \<Rightarrow> loop_exit \<times> 'p handler list" where
  "poll [] payload isApproved = (Finished isApproved, [])"
| "poll (h # hs) payload isApproved =
     (case h payload of
        Returns v \<Rightarrow>
          if truthy v then (Finished v, [h])
          else (case poll hs payload v of (e, cs) \<Rightarrow> (e, h # cs))
      | Throws \<Rightarrow> (Rejected, [h])
      | NeverSettles \<Rightarrow> (Pending, [h]))"

text \<open>The outbound calls made through \<^verbatim>\<open>invoke\<close>.\<close>

datatype invoke_call =
    respond_to_sign_event_request string jsval
  | respond_to_pay_invoice_request string jsval

text \<open>
  One run of a listener: the handlers invoked, the outbound calls issued, and how
  the listener's own promise ended.
\<close>

record 'p dispatch =
  calls :: "'p handler list"
  invokes :: "invoke_call list"
  ending :: loop_exit

definition sign_event_request_listener ::
  "SignEventRequestHandler registry \<Rightarrow> UnsignedNostrEvent \<times> string
     \<Rightarrow> (UnsignedNostrEvent \<times> string) dispatch" where
  "sign_event_request_listener signEventRequestHandlers payload =
     (case poll (Object_values signEventRequestHandlers) payload (JBool False) of
        (Finished isApproved, cs) \<Rightarrow>
          \<lparr>calls = cs,
           invokes = [respond_to_sign_event_request (event_id (fst payload)) isApproved],
           ending = Finished isApproved\<rparr>
      | (e, cs) \<Rightarrow> \<lparr>calls = cs, invokes = [], ending = e\<rparr>)"

definition pay_invoice_request_listener ::
  "PayInvoiceRequestHandler registry \<Rightarrow> string \<Rightarrow> string dispatch" where
  "pay_invoice_request_listener payInvoiceRequestHandlers payload =
     (case poll (Object_values payInvoiceRequestHandlers) payload (JBool False) of
        (Finished isApproved, cs) \<Rightarrow>
          \<lparr>calls = cs,
           invokes = [respond_to_pay_invoice_request payload isApproved],
           ending = Finished isApproved\<rparr>
      | (e, cs) \<Rightarrow> \<lparr>calls = cs, invokes = [], ending = e\<rparr>)"

section \<open>Registration\<close>

text \<open>
  \<^verbatim>\<open>Math.floor(Math.random() * max)\<close>. The number \<^verbatim>\<open>Math.random()\<close> returns is taken
  as a real; the source of randomness is the sequence of the numbers it returns, call
  after call. The code floors the product rounded to a double, the model the exact
  product: for some draws the two differ by one (the double nearest to 0.000001 gives 1
  in the code and 0 here). The properties proved of the allocation loop use of this
  function only that a draw in \<open>[0, 1)\<close> gives an identity below \<open>max\<close>, which is
  true of the code as well; the sample sources are evaluated with the exact product.
\<close>

type_synonym random_source = "nat \<Rightarrow> real"

definition getRandomInt :: "nat \<Rightarrow> real \<Rightarrow> nat" where
  "getRandomInt max' r = nat \<lfloor>r * real max'\<rfloor>"

text \<open>
  \<^verbatim>\<open>while (handlers[handlerId]) { handlerId = getRandomInt(1000000); }\<close>
  A stored handler is a function, hence truthy, so the test is whether the key is
  present. \<open>n\<close> counts the calls of \<^verbatim>\<open>Math.random()\<close> made so far. The loop has no
  bound on its retries: \<open>None\<close> is the run that never leaves it.
\<close>

partial_function (option) freshHandlerId ::
  "random_source \<Rightarrow> 'h registry \<Rightarrow> nat \<Rightarrow> nat \<Rightarrow> (nat \<times> nat) option" where
  "freshHandlerId random reg handlerId n =
     (if lookup reg handlerId \<noteq> None
      then freshHandlerId random reg (getRandomInt 1000000 (random n)) (Suc n)
      else Some (handlerId, n))"

text \<open>
  The two module-level registries, and the number of random numbers drawn so far.
\<close>

record broker =
  signEventRequestHandlers :: "SignEventRequestHandler registry"
  payInvoiceRequestHandlers :: "PayInvoiceRequestHandler registry"
  drawn :: nat

definition initial :: broker where
  "initial = \<lparr>signEventRequestHandlers = [], payInvoiceRequestHandlers = [], drawn = 0\<rparr>"

text \<open>
  \<^verbatim>\<open>handleSignEventRequests\<close> and \<^verbatim>\<open>handlePayInvoiceRequests\<close> return the closure
  \<^verbatim>\<open>() => { delete handlers[handlerId]; }\<close>. The closure is determined by the
  identity it captured, so the model returns that identity; running the closure is
  \<open>unregisterSignEventRequests\<close> (\<open>unregisterPayInvoiceRequests\<close>) at it.
\<close>

definition handleSignEventRequests ::
  "random_source \<Rightarrow> SignEventRequestHandler \<Rightarrow> broker \<Rightarrow> (nat \<times> broker) option" where
  "handleSignEventRequests random handler b =
     (case freshHandlerId random (signEventRequestHandlers b)
             (getRandomInt 1000000 (random (drawn b))) (Suc (drawn b)) of
        None \<Rightarrow> None
      | Some (handlerId, n) \<Rightarrow>
          Some (handlerId,
                b\<lparr>signEventRequestHandlers :=
                     assign handlerId handler (signEventRequestHandlers b),
                   drawn := n\<rparr>))"

definition handlePayInvoiceRequests ::
  "random_source \<Rightarrow> PayInvoiceRequestHandler \<Rightarrow> broker \<Rightarrow> (nat \<times> broker) option" where
  "handlePayInvoiceRequests random handler b =
     (case freshHandlerId random (payInvoiceRequestHandlers b)
             (getRandomInt 1000000 (random (drawn b))) (Suc (drawn b)) of
        None \<Rightarrow> None
      | Some (handlerId, n) \<Rightarrow>
          Some (handlerId,
                b\<lparr>payInvoiceRequestHandlers :=
                     assign handlerId handler (payInvoiceRequestHandlers b),
                   drawn := n\<rparr>))"

definition unregisterSignEventRequests :: "nat \<Rightarrow> broker \<Rightarrow> broker" where
  "unregisterSignEventRequests handlerId b =
     b\<lparr>signEventRequestHandlers := delete handlerId (signEventRequestHandlers b)\<rparr>"

definition unregisterPayInvoiceRequests :: "nat \<Rightarrow> broker \<Rightarrow> broker" where
  "unregisterPayInvoiceRequests handlerId b =
     b\<lparr>payInvoiceRequestHandlers := delete handlerId (payInvoiceRequestHandlers b)\<rparr>"

text \<open>
  What the rest of the application can do to the registries: register a handler in
  either one, or run an unregister closure obtained earlier. \<open>run\<close> performs a list of
  such calls in order and collects the identities handed out, per registry.
\<close>

datatype call =
    RegisterSign SignEventRequestHandler
  | RegisterPay PayInvoiceRequestHandler
  | UnregisterSign nat
  | UnregisterPay nat

fun is_registration :: "call \<Rightarrow> bool" where
  "is_registration (RegisterSign h) = True"
| "is_registration (RegisterPay h) = True"
| "is_registration (UnregisterSign i) = False"
| "is_registration (UnregisterPay i) = False"

fun is_sign_registration :: "call \<Rightarrow> bool" where
  "is_sign_registration (RegisterSign h) = True"
| "is_sign_registration c = False"

fun is_pay_registration :: "call \<Rightarrow> bool" where
  "is_pay_registration (RegisterPay h) = True"
| "is_pay_registration c = False"

fun run :: "random_source \<Rightarrow> call list \<Rightarrow> broker \<Rightarrow> (nat list \<times> nat list \<times> broker) option" where
  "run random [] b = Some ([], [], b)"
| "run random (RegisterSign h # cs) b =
     (case handleSignEventRequests random h b of
        None \<Rightarrow> None
      | Some (i, b') \<Rightarrow>
          (case run random cs b' of
             None \<Rightarrow> None
           | Some (sids, pids, b'') \<Rightarrow> Some (i # sids, pids, b'')))"
| "run random (RegisterPay h # cs) b =
     (case handlePayInvoiceRequests random h b of
        None \<Rightarrow> None
      | Some (i, b') \<Rightarrow>
          (case run random cs b' of
             None \<Rightarrow> None
           | Some (sids, pids, b'') \<Rightarrow> Some (sids, i # pids, b'')))"
| "run random (UnregisterSign i # cs) b = run random cs (unregisterSignEventRequests i b)"
| "run random (UnregisterPay i # cs) b = run random cs (unregisterPayInvoiceRequests i b)"

text \<open>The states the registries can be in: whatever some list of calls leaves behind.\<close>

definition reachable :: "random_source \<Rightarrow> broker \<Rightarrow> bool" where
  "reachable random b = (\<exists>cs sids pids. run random cs initial = Some (sids, pids, b))"

section \<open>The login form\<close>

text \<open>
  \<^verbatim>\<open>nip19.decode\<close> belongs to the nostr-tools library: it is a parameter here, a
  function that either throws or returns an object with a \<^verbatim>\<open>type\<close> field.
\<close>

datatype js_error = Error string

record DecodeResult =
  decoded_type :: string
  decoded_data :: string

type_synonym decoder = "string \<Rightarrow> js_error + DecodeResult"

definition isValidNsec :: "decoder \<Rightarrow> string \<Rightarrow> bool" where
  "isValidNsec decode nsec =
     (case decode nsec of
        Inr result \<Rightarrow> decoded_type result = ''nsec''
      | Inl e \<Rightarrow> False)"

record form_values =
  nsec :: string

text \<open>
  \<^verbatim>\<open>z.object({ nsec: z.string().refine(isValidNsec, { message: "Invalid nsec." }) })\<close>:
  parsing succeeds with the values when the refinement holds, and fails with the
  message otherwise.
\<close>

definition formSchema :: "decoder \<Rightarrow> form_values \<Rightarrow> string + form_values" where
  "formSchema decode values =
     (if isValidNsec decode (nsec values) then Inr values else Inl ''Invalid nsec.'')"

datatype ui_action =
    SetIsLoading bool
  | Invoke_set_nsec string
  | Navigate string
  | FormMessage string

text \<open>
  \<^verbatim>\<open>onSubmit\<close>: the backend's answer to \<^verbatim>\<open>set_nsec\<close> is the parameter \<open>accepts\<close>; when
  the call rejects, \<^verbatim>\<open>navigate\<close> is skipped and the \<^verbatim>\<open>finally\<close> block still runs.
\<close>

definition onSubmit :: "(string \<Rightarrow> bool) \<Rightarrow> form_values \<Rightarrow> ui_action list" where
  "onSubmit accepts values =
     [SetIsLoading True, Invoke_set_nsec (nsec values)]
     @ (if accepts (nsec values) then [Navigate ''/''] else [])
     @ [SetIsLoading False]"

text \<open>
  \<^verbatim>\<open>form.handleSubmit(onSubmit)\<close> with \<^verbatim>\<open>zodResolver(formSchema)\<close>: react-hook-form
  validates the values with the resolver and calls \<^verbatim>\<open>onSubmit\<close> only when that
  succeeds; otherwise it shows the message.
\<close>

definition handleSubmit :: "decoder \<Rightarrow> (string \<Rightarrow> bool) \<Rightarrow> form_values \<Rightarrow> ui_action list" where
  "handleSubmit decode accepts values =
     (case formSchema decode values of
        Inr valid \<Rightarrow> onSubmit accepts valid
      | Inl message \<Rightarrow> [FormMessage message])"

section \<open>Notions used in the statements\<close>

text \<open>A handler declines when it returns a value that is not truthy.\<close>

definition declines :: "'p \<Rightarrow> 'p handler \<Rightarrow> bool" where
  "declines payload h = (case h payload of Returns v \<Rightarrow> \<not> truthy v | _ \<Rightarrow> False)"

text \<open>
  The keys of a registry in strictly ascending order: the shape of an object's
  integer-keyed properties, and what keeps \<open>assign\<close> from creating a key twice.
\<close>

definition ordered :: "'h registry \<Rightarrow> bool" where
  "ordered reg = sorted_wrt (<) (keys reg)"

definition wf :: "broker \<Rightarrow> bool" where
  "wf b = (ordered (signEventRequestHandlers b) \<and> ordered (payInvoiceRequestHandlers b))"

text \<open>
  A source of randomness is recurrent when, from any call on, it comes to draw every
  identity again. Independent uniform draws are recurrent with probability 1.
\<close>

definition recurrent :: "random_source \<Rightarrow> bool" where
  "recurrent random =
     (\<forall>d i. i < 1000000 \<longrightarrow> (\<exists>j. getRandomInt 1000000 (random (d + j)) = i))"

section \<open>Sample requests, handlers and sources of randomness\<close>

definition always :: "outcome \<Rightarrow> 'p handler" where
  "always r payload = r"

definition sample_event :: UnsignedNostrEvent where
  "sample_event =
     \<lparr>event_id = ''e1'', pubkey = ''alice'', kind = 1, content = ''hello'', tags = []\<rparr>"

definition constant_source :: "real \<Rightarrow> random_source" where
  "constant_source r n = r"

definition sample_source :: random_source where
  "sample_source n = real (n mod 4) / 4"

text \<open>A source that walks through the identities in order, again and again.\<close>

definition cycling_source :: random_source where
  "cycling_source n = real (n mod 1000000) / 1000000"

definition three_registrations :: "call list" where
  "three_registrations =
     [RegisterSign (always Throws), RegisterPay (always Throws),
      RegisterSign (always (Returns (JBool True)))]"

definition after_three_registrations :: broker where
  "after_three_registrations =
     \<lparr>signEventRequestHandlers = [(0, always Throws), (2, always (Returns (JBool True)))],
      payInvoiceRequestHandlers = [(1, always Throws)],
      drawn = 3\<rparr>"

definition registered_once :: broker where
  "registered_once =
     \<lparr>signEventRequestHandlers = [(0, always (Returns (JBool False)))],
      payInvoiceRequestHandlers = [], drawn = 1\<rparr>"


definition paying_once :: broker where
  "paying_once =
     \<lparr>signEventRequestHandlers = [],
      payInvoiceRequestHandlers = [(0, always (Returns (JBool False)))], drawn = 1\<rparr>"


definition sample_decode :: decoder where
  "sample_decode s =
     (if take 5 s = ''nsec1'' then Inr \<lparr>decoded_type = ''nsec'', decoded_data = drop 5 s\<rparr>
      else if take 5 s = ''npub1'' then Inr \<lparr>decoded_type = ''npub'', decoded_data = drop 5 s\<rparr>
      else Inl (Error ''Unknown prefix''))"

section \<open>Properties of the dispatch loop\<close>

lemma declinesD: "declines p h \<Longrightarrow> \<exists>v. h p = Returns v \<and> \<not> truthy v"
  by (auto simp: declines_def split: outcome.splits)

lemma poll_declined_prefix:
  "\<forall>h\<in>set pre. declines p h \<Longrightarrow>
     \<exists>v1. (pre = [] \<longrightarrow> v1 = v0) \<and> (\<not> truthy v0 \<longrightarrow> \<not> truthy v1) \<and>
       poll (pre @ rest) p v0 = (fst (poll rest p v1), pre @ snd (poll rest p v1))"
proof (induction pre arbitrary: v0)
  case Nil
  then show ?case by simp
next
  case (Cons h pre)
  then obtain v where v: "h p = Returns v" "\<not> truthy v" using declinesD by fastforce
  from Cons.IH[of v] Cons.prems obtain v1 where
    "(\<not> truthy v \<longrightarrow> \<not> truthy v1)" "poll (pre @ rest) p v = (fst (poll rest p v1), pre @ snd (poll rest p v1))"
    by auto
  with v show ?case by (intro exI[of _ v1]) simp
qed

lemma poll_all_decline:
  assumes "\<forall>h\<in>set hs. declines p h" "\<not> truthy v0"
  shows "\<exists>v. \<not> truthy v \<and> poll hs p v0 = (Finished v, hs)"
  using poll_declined_prefix[OF assms(1), of v0 "[]"] assms(2) by auto

lemma poll_all_false:
  "\<forall>h\<in>set hs. h p = Returns (JBool False) \<Longrightarrow> poll hs p (JBool False) = (Finished (JBool False), hs)"
  by (induction hs) auto

lemma poll_first_approval:
  assumes "\<forall>h\<in>set pre. declines p h" "h p = Returns v" "truthy v"
  shows "poll (pre @ h # post) p v0 = (Finished v, pre @ [h])"
  using poll_declined_prefix[OF assms(1), of v0 "h # post"] assms(2,3) by auto

lemma poll_first_throw:
  assumes "\<forall>h\<in>set pre. declines p h" "h p = Throws"
  shows "poll (pre @ h # post) p v0 = (Rejected, pre @ [h])"
  using poll_declined_prefix[OF assms(1), of v0 "h # post"] assms(2) by auto

lemma poll_finished_iff:
  "(\<exists>v. fst (poll hs p v0) = Finished v) = (\<forall>h\<in>set (snd (poll hs p v0)). \<exists>v. h p = Returns v)"
proof (induction hs arbitrary: v0)
  case Nil
  then show ?case by simp
next
  case (Cons h hs)
  show ?case
  proof (cases "h p")
    case (Returns v)
    then show ?thesis using Cons.IH[of v] by (auto split: prod.splits)
  qed auto
qed


lemma sign_listener_poll:
  "calls (sign_event_request_listener reg payload) = snd (poll (Object_values reg) payload (JBool False))"
  "ending (sign_event_request_listener reg payload) = fst (poll (Object_values reg) payload (JBool False))"
  "invokes (sign_event_request_listener reg payload) =
     (case fst (poll (Object_values reg) payload (JBool False)) of
        Finished v \<Rightarrow> [respond_to_sign_event_request (event_id (fst payload)) v]
      | _ \<Rightarrow> [])"
  by (auto simp: sign_event_request_listener_def split: prod.splits loop_exit.splits)

lemma pay_listener_poll:
  "calls (pay_invoice_request_listener reg payload) = snd (poll (Object_values reg) payload (JBool False))"
  "ending (pay_invoice_request_listener reg payload) = fst (poll (Object_values reg) payload (JBool False))"
  "invokes (pay_invoice_request_listener reg payload) =
     (case fst (poll (Object_values reg) payload (JBool False)) of
        Finished v \<Rightarrow> [respond_to_pay_invoice_request payload v]
      | _ \<Rightarrow> [])"
  by (auto simp: pay_invoice_request_listener_def split: prod.splits loop_exit.splits)

section \<open>One response per request\<close>

text \<open>
  Claim C1. The doc comment of \<^verbatim>\<open>handleSignEventRequests\<close> gives every request its
  verdict: the event is approved if a handler returns true, and denied if no handler
  returns true. The listener does not keep to it when a handler throws. Nothing catches
  what \<^verbatim>\<open>await handler(...)\<close> rethrows, so the rest of the listener, the call of
  \<^verbatim>\<open>respondToSignEventRequest\<close> included, is skipped. With one registered handler, which
  throws, no handler has returned true, and yet the request gets no response at all,
  where the claim and the doc comment call for exactly one, a denial.
\<close>

theorem no_response_when_handler_throws:
  "calls (sign_event_request_listener [(42, always Throws)] (sample_event, ''alice''))
     = [always Throws]
   \<and> invokes (sign_event_request_listener [(42, always Throws)] (sample_event, ''alice'')) = []
   \<and> ending (sign_event_request_listener [(42, always Throws)] (sample_event, ''alice''))
     = Rejected"
  by (simp add: sign_event_request_listener_def Object_values_def always_def)

text \<open>
  The extent of the defect. A listener never sends more than one response, and it sends
  exactly one, carrying the key of the request (the event's id, or the invoice), exactly
  when every handler it polled settled by returning a value, whatever the number of
  registered handlers and whatever the values returned.
\<close>

lemma one_response_when_handlers_return:
  "((\<exists>v. invokes (sign_event_request_listener sreg (ev, pk))
           = [respond_to_sign_event_request (event_id ev) v])
     = (\<forall>h\<in>set (calls (sign_event_request_listener sreg (ev, pk))). \<exists>v. h (ev, pk) = Returns v))
   \<and> ((\<exists>v. invokes (pay_invoice_request_listener preg invoice)
           = [respond_to_pay_invoice_request invoice v])
     = (\<forall>h\<in>set (calls (pay_invoice_request_listener preg invoice)). \<exists>v. h invoice = Returns v))
   \<and> length (invokes (sign_event_request_listener sreg (ev, pk))) \<le> 1
   \<and> length (invokes (pay_invoice_request_listener preg invoice)) \<le> 1"
proof -
  have s: "(\<exists>v. invokes (sign_event_request_listener sreg (ev, pk))
           = [respond_to_sign_event_request (event_id ev) v])
     = (\<exists>v. fst (poll (Object_values sreg) (ev, pk) (JBool False)) = Finished v)"
    by (auto simp: sign_listener_poll split: loop_exit.splits)
  have p: "(\<exists>v. invokes (pay_invoice_request_listener preg invoice)
           = [respond_to_pay_invoice_request invoice v])
     = (\<exists>v. fst (poll (Object_values preg) invoice (JBool False)) = Finished v)"
    by (auto simp: pay_listener_poll split: loop_exit.splits)
  have l1: "length (invokes (sign_event_request_listener sreg (ev, pk))) \<le> 1"
    by (simp add: sign_listener_poll split: loop_exit.splits)
  have l2: "length (invokes (pay_invoice_request_listener preg invoice)) \<le> 1"
    by (simp add: pay_listener_poll split: loop_exit.splits)
  show ?thesis
    unfolding s p using l1 l2
    by (simp add: poll_finished_iff sign_listener_poll(1) pay_listener_poll(1))
qed

lemma one_response_example:
  "calls (sign_event_request_listener
      [(3, always (Returns (JBool False))), (5, always (Returns (JBool True)))]
      (sample_event, ''alice''))
     = [always (Returns (JBool False)), always (Returns (JBool True))]
   \<and> invokes (sign_event_request_listener
      [(3, always (Returns (JBool False))), (5, always (Returns (JBool True)))]
      (sample_event, ''alice''))
     = [respond_to_sign_event_request ''e1'' (JBool True)]
   \<and> calls (pay_invoice_request_listener [] ''lnbc1'') = []
   \<and> invokes (pay_invoice_request_listener [] ''lnbc1'')
     = [respond_to_pay_invoice_request ''lnbc1'' (JBool False)]"
  using one_response_when_handlers_return
    [of "[(3, always (Returns (JBool False))), (5, always (Returns (JBool True)))]"
        sample_event "''alice''" "[]" "''lnbc1''"]
  by (auto simp: sign_listener_poll pay_listener_poll Object_values_def always_def
      sample_event_def)

section \<open>Handlers that throw\<close>

text \<open>
  Claim C2. The doc comments of \<^verbatim>\<open>handleSignEventRequests\<close> and
  \<^verbatim>\<open>handlePayInvoiceRequests\<close> say that all registered handlers are called, one at a
  time, until one of them approves. The listeners miss the case of a handler that
  throws: nothing catches it, so the loop is left at once and the handlers behind it are
  never reached. With a throwing handler polled first and an approving handler behind
  it, the approving handler is never invoked, no response is sent, and the listener's
  own promise rejects, where the claim has the second handler invoked and its approval
  sent.
\<close>

theorem later_handler_skipped_after_throw:
  "calls (pay_invoice_request_listener
      [(1, always Throws), (2, always (Returns (JBool True)))] ''lnbc1'') = [always Throws]
   \<and> invokes (pay_invoice_request_listener
      [(1, always Throws), (2, always (Returns (JBool True)))] ''lnbc1'') = []
   \<and> ending (pay_invoice_request_listener
      [(1, always Throws), (2, always (Returns (JBool True)))] ''lnbc1'') = Rejected"
  by (simp add: pay_listener_poll Object_values_def always_def)

text \<open>
  The same at every position, in both listeners: when the handlers polled so far declined
  and the next one throws, the handlers up to and including that one are the only ones
  invoked, and nothing is sent.
\<close>

lemma handler_throw_aborts_dispatch:
  "(Object_values sreg = pre @ h # post \<and> (\<forall>g\<in>set pre. declines sp g) \<and> h sp = Throws
      \<longrightarrow> calls (sign_event_request_listener sreg sp) = pre @ [h]
        \<and> invokes (sign_event_request_listener sreg sp) = []
        \<and> ending (sign_event_request_listener sreg sp) = Rejected)
   \<and> (Object_values preg = pre' @ h' # post' \<and> (\<forall>g\<in>set pre'. declines pp g) \<and> h' pp = Throws
      \<longrightarrow> calls (pay_invoice_request_listener preg pp) = pre' @ [h']
        \<and> invokes (pay_invoice_request_listener preg pp) = []
        \<and> ending (pay_invoice_request_listener preg pp) = Rejected)"
  by (simp add: sign_listener_poll pay_listener_poll poll_first_throw)

lemma handler_throw_aborts_dispatch_example:
  "calls (sign_event_request_listener
      [(2, always (Returns (JBool False))), (4, always Throws), (6, always (Returns (JBool True)))]
      (sample_event, ''alice'')) = [always (Returns (JBool False)), always Throws]
   \<and> invokes (sign_event_request_listener
      [(2, always (Returns (JBool False))), (4, always Throws), (6, always (Returns (JBool True)))]
      (sample_event, ''alice'')) = []
   \<and> calls (pay_invoice_request_listener
      [(7, always Throws), (9, always (Returns (JBool False)))] ''lnbc1'') = [always Throws]
   \<and> invokes (pay_invoice_request_listener
      [(7, always Throws), (9, always (Returns (JBool False)))] ''lnbc1'') = []"
  using handler_throw_aborts_dispatch
    [of "[(2, always (Returns (JBool False))), (4, always Throws), (6, always (Returns (JBool True)))]"
        "[always (Returns (JBool False))]" "always Throws" "[always (Returns (JBool True))]"
        "(sample_event, ''alice'')"
        "[(7, always Throws), (9, always (Returns (JBool False)))]"
        "[]" "always Throws" "[always (Returns (JBool False))]" "''lnbc1''"]
  by (simp add: Object_values_def declines_def always_def)

section \<open>Pay-invoice results\<close>

text \<open>
  Claim C3. The doc comment of \<^verbatim>\<open>handlePayInvoiceRequests\<close> promises the reduction the
  claim describes, over the results "paid", "failed" and "denied". The listener tests
  truthiness only. Polled with handlers that answer "denied" and then "paid", it stops
  after the first one, since a non-empty string is truthy, never calls the second, and
  sends "denied" as the approval. With handlers of the declared boolean type, a failed
  payment and a denied one are both \<^verbatim>\<open>false\<close>, and the response is \<^verbatim>\<open>false\<close> for
  both: no verdict "failed" is formed.
\<close>

theorem pay_invoice_results_are_not_tristate:
  "calls (pay_invoice_request_listener
      [(1, always (Returns (JStr ''denied''))), (2, always (Returns (JStr ''paid'')))] ''lnbc1'')
     = [always (Returns (JStr ''denied''))]
   \<and> invokes (pay_invoice_request_listener
      [(1, always (Returns (JStr ''denied''))), (2, always (Returns (JStr ''paid'')))] ''lnbc1'')
     = [respond_to_pay_invoice_request ''lnbc1'' (JStr ''denied'')]
   \<and> invokes (pay_invoice_request_listener
      [(1, always (Returns (JBool False))), (2, always (Returns (JBool False)))] ''lnbc1'')
     = [respond_to_pay_invoice_request ''lnbc1'' (JBool False)]"
  by (simp add: pay_listener_poll Object_values_def always_def)

section \<open>Short circuit\<close>

text \<open>
  Claim C4. Let the sign-event listener poll the handlers in the order of
  \<^verbatim>\<open>Object.values\<close>. If the \<open>k\<close>-th of them (counting from 1) returns \<^verbatim>\<open>true\<close> and
  the \<open>k - 1\<close> handlers polled before it declined, then exactly the first \<open>k\<close>
  handlers are invoked, none of the handlers \<open>k + 1 .. N\<close>, and the one response sent
  carries \<^verbatim>\<open>approved = true\<close>.
\<close>

theorem sign_event_short_circuit:
  assumes "1 \<le> k" and "k \<le> length (Object_values reg)"
    and "\<forall>i<k - 1. declines payload (Object_values reg ! i)"
    and "(Object_values reg ! (k - 1)) payload = Returns (JBool True)"
  shows "calls (sign_event_request_listener reg payload) = take k (Object_values reg)
    \<and> invokes (sign_event_request_listener reg payload)
        = [respond_to_sign_event_request (event_id (fst payload)) (JBool True)]"
proof -
  let ?hs = "Object_values reg"
  from assms(1,2) have lt: "k - 1 < length ?hs" by simp
  have split: "?hs = take (k - 1) ?hs @ (?hs ! (k - 1)) # drop k ?hs"
    using id_take_nth_drop[OF lt] assms(1) by simp
  have pre: "\<forall>g\<in>set (take (k - 1) ?hs). declines payload g"
  proof
    fix g assume "g \<in> set (take (k - 1) ?hs)"
    then obtain i where "i < k - 1" "i < length ?hs" "g = ?hs ! i"
      by (auto simp: in_set_conv_nth)
    with assms(3) show "declines payload g" by simp
  qed
  have tk: "take k ?hs = take (k - 1) ?hs @ [?hs ! (k - 1)]"
    using take_Suc_conv_app_nth[OF lt] assms(1) by simp
  have "poll ?hs payload (JBool False) = (Finished (JBool True), take (k - 1) ?hs @ [?hs ! (k - 1)])"
    using poll_first_approval[of "take (k - 1) ?hs" payload "?hs ! (k - 1)" "JBool True"
        "drop k ?hs" "JBool False"] pre assms(4) split by simp
  then show ?thesis
    by (simp add: sign_listener_poll tk)
qed

theorem sign_event_short_circuit_witness:
  "calls (sign_event_request_listener
      [(10, always (Returns (JBool False))), (20, always (Returns (JBool True))),
       (30, always (Returns (JBool True)))] (sample_event, ''alice''))
     = [always (Returns (JBool False)), always (Returns (JBool True))]
   \<and> invokes (sign_event_request_listener
      [(10, always (Returns (JBool False))), (20, always (Returns (JBool True))),
       (30, always (Returns (JBool True)))] (sample_event, ''alice''))
     = [respond_to_sign_event_request ''e1'' (JBool True)]"
  using sign_event_short_circuit
    [of 2 "[(10, always (Returns (JBool False))), (20, always (Returns (JBool True))),
            (30, always (Returns (JBool True)))]" "(sample_event, ''alice'')"]
  by (simp add: Object_values_def declines_def always_def sample_event_def less_Suc_eq)

section \<open>Default deny\<close>

text \<open>
  Claim C5. With an empty registry, a sign-event request is answered with
  \<^verbatim>\<open>approved = false\<close>, and so is a pay-invoice request. If every registered handler
  returns \<^verbatim>\<open>false\<close>, the response carries \<^verbatim>\<open>approved = false\<close>; more generally, if every
  handler returns a value that is not truthy, the response carries a value that is not
  truthy.
\<close>

theorem default_deny:
  "invokes (sign_event_request_listener [] (ev, pk))
     = [respond_to_sign_event_request (event_id ev) (JBool False)]
   \<and> invokes (pay_invoice_request_listener [] invoice)
     = [respond_to_pay_invoice_request invoice (JBool False)]
   \<and> ((\<forall>h\<in>set (Object_values sreg). h (ev, pk) = Returns (JBool False))
      \<longrightarrow> invokes (sign_event_request_listener sreg (ev, pk))
          = [respond_to_sign_event_request (event_id ev) (JBool False)])
   \<and> ((\<forall>h\<in>set (Object_values preg). h invoice = Returns (JBool False))
      \<longrightarrow> invokes (pay_invoice_request_listener preg invoice)
          = [respond_to_pay_invoice_request invoice (JBool False)])
   \<and> ((\<forall>h\<in>set (Object_values sreg). declines (ev, pk) h)
      \<longrightarrow> (\<exists>v. \<not> truthy v \<and> invokes (sign_event_request_listener sreg (ev, pk))
          = [respond_to_sign_event_request (event_id ev) v]))
   \<and> ((\<forall>h\<in>set (Object_values preg). declines invoice h)
      \<longrightarrow> (\<exists>v. \<not> truthy v \<and> invokes (pay_invoice_request_listener preg invoice)
          = [respond_to_pay_invoice_request invoice v]))"
proof -
  have a: "\<forall>h\<in>set hs. declines p h \<Longrightarrow> \<exists>v. \<not> truthy v \<and> fst (poll hs p (JBool False)) = Finished v"
    for hs :: "'a handler list" and p
    using poll_all_decline[of hs p "JBool False"] by auto
  show ?thesis
    apply (simp add: sign_listener_poll pay_listener_poll Object_values_def[of "[]"] poll_all_false)
    using a[of "Object_values sreg" "(ev, pk)"] a[of "Object_values preg" invoice]
    by auto
qed

theorem default_deny_witness:
  "invokes (sign_event_request_listener
      [(1, always (Returns (JBool False))), (2, always (Returns (JBool False)))]
      (sample_event, ''alice'')) = [respond_to_sign_event_request ''e1'' (JBool False)]
   \<and> invokes (pay_invoice_request_listener
      [(5, always (Returns (JBool False)))] ''lnbc1'')
      = [respond_to_pay_invoice_request ''lnbc1'' (JBool False)]"
  using default_deny
    [of sample_event "''alice''" "''lnbc1''"
        "[(1, always (Returns (JBool False))), (2, always (Returns (JBool False)))]"
        "[(5, always (Returns (JBool False)))]"]
  by (simp add: Object_values_def declines_def always_def sample_event_def)

section \<open>Properties of the registry operations\<close>

lemma ordered_distinct: "ordered reg \<Longrightarrow> distinct (keys reg)"
  by (simp add: ordered_def strict_sorted_iff)

lemma keys_assign: "set (keys (assign k h reg)) = insert k (set (keys reg))"
proof (induction reg)
  case Nil
  then show ?case by (simp add: keys_def)
next
  case (Cons e reg)
  obtain k' h' where e: "e = (k', h')" by (cases e)
  from Cons.IH have "fst ` set (assign k h reg) = insert k (fst ` set reg)"
    by (simp add: keys_def)
  then show ?case by (auto simp: keys_def e)
qed

lemma lookup_assign: "lookup (assign k h reg) k' = (if k' = k then Some h else lookup reg k')"
  by (induction reg) (auto simp: lookup_def)

lemma ordered_assign: "ordered reg \<Longrightarrow> ordered (assign k h reg)"
proof (induction reg)
  case Nil
  then show ?case by (simp add: ordered_def keys_def)
next
  case (Cons e reg)
  obtain k' h' where e: "e = (k', h')" by (cases e)
  from Cons.prems have tl: "ordered reg" and lt: "\<forall>x\<in>set (keys reg). k' < x"
    by (auto simp: ordered_def keys_def e)
  show ?case
  proof (cases "k < k'")
    case True
    with Cons.prems show ?thesis by (auto simp: ordered_def keys_def e)
  next
    case False
    show ?thesis
    proof (cases "k = k'")
      case True
      with Cons.prems show ?thesis by (auto simp: ordered_def keys_def e)
    next
      case ne: False
      with False have "k' < k" by simp
      moreover from Cons.IH[OF tl] have "sorted_wrt (<) (keys (assign k h reg))"
        by (simp add: ordered_def)
      moreover have "set (keys (assign k h reg)) = insert k (set (keys reg))"
        by (rule keys_assign)
      ultimately show ?thesis using False ne lt
        by (auto simp: ordered_def e keys_def)
    qed
  qed
qed

lemma keys_delete: "keys (delete k reg) = filter (\<lambda>x. x \<noteq> k) (keys reg)"
  by (induction reg) (auto simp: keys_def delete_def)

lemma lookup_delete: "lookup (delete k reg) k' = (if k' = k then None else lookup reg k')"
  by (induction reg) (auto simp: lookup_def delete_def)

lemma ordered_delete: "ordered reg \<Longrightarrow> ordered (delete k reg)"
  by (simp add: ordered_def keys_delete sorted_wrt_filter)

lemma delete_twice: "delete k (delete k reg) = delete k reg"
  by (simp add: delete_def)

lemma delete_absent: "k \<notin> set (keys reg) \<Longrightarrow> delete k reg = reg"
  by (induction reg) (auto simp: delete_def keys_def)

lemma lookup_None_iff: "lookup reg k = None \<longleftrightarrow> k \<notin> set (keys reg)"
  by (simp add: lookup_def keys_def map_of_eq_None_iff)





section \<open>Properties of the allocation loop\<close>

lemma getRandomInt_range: "0 \<le> r \<Longrightarrow> r < 1 \<Longrightarrow> 0 < m \<Longrightarrow> getRandomInt m r < m"
proof -
  assume r: "0 \<le> r" "r < 1" and m: "0 < m"
  have "r * real m < real m" using r m by simp
  then have "\<lfloor>r * real m\<rfloor> < int m" by (simp add: floor_less_iff)
  moreover have "0 \<le> \<lfloor>r * real m\<rfloor>" using r by simp
  ultimately show ?thesis by (simp add: getRandomInt_def nat_less_iff)
qed

lemma getRandomInt_hits: "0 < m \<Longrightarrow> getRandomInt m (real i / real m) = i"
  by (simp add: getRandomInt_def)

lemma freshHandlerId_free:
  "lookup reg handlerId = None \<Longrightarrow> freshHandlerId random reg handlerId n = Some (handlerId, n)"
  by (subst freshHandlerId.simps) simp

lemma freshHandlerId_taken:
  "lookup reg handlerId \<noteq> None \<Longrightarrow>
     freshHandlerId random reg handlerId n
       = freshHandlerId random reg (getRandomInt 1000000 (random n)) (Suc n)"
  by (subst freshHandlerId.simps) simp

lemma freshHandlerId_result:
  assumes "freshHandlerId random reg handlerId n = Some y"
  shows "lookup reg (fst y) = None \<and> n \<le> snd y"
  using assms
proof (induction rule: freshHandlerId.raw_induct[rotated 1, consumes 1, case_names step])
  case 1: (step f random reg handlerId n y)
  show ?case
  proof (cases "lookup reg handlerId \<noteq> None")
    case True
    with 1(2) have "f random reg (getRandomInt 1000000 (random n)) (Suc n) = Some y" by simp
    then have "lookup reg (fst y) = None \<and> Suc n \<le> snd y" by (rule 1(1))
    then show ?thesis by simp
  next
    case False
    with 1(2) show ?thesis by auto
  qed
qed

lemma freshHandlerId_never:
  assumes "freshHandlerId random reg handlerId n = Some y"
  shows "lookup reg handlerId = None \<or> (\<exists>k\<ge>n. lookup reg (getRandomInt 1000000 (random k)) = None)"
  using assms
proof (induction rule: freshHandlerId.raw_induct[rotated 1, consumes 1, case_names step])
  case 1: (step f random reg handlerId n y)
  show ?case
  proof (cases "lookup reg handlerId \<noteq> None")
    case True
    with 1(2) have "f random reg (getRandomInt 1000000 (random n)) (Suc n) = Some y" by simp
    then have "lookup reg (getRandomInt 1000000 (random n)) = None
        \<or> (\<exists>k\<ge>Suc n. lookup reg (getRandomInt 1000000 (random k)) = None)" by (rule 1(1))
    then show ?thesis
    proof
      assume "lookup reg (getRandomInt 1000000 (random n)) = None"
      then have "\<exists>k\<ge>n. lookup reg (getRandomInt 1000000 (random k)) = None"
        by (intro exI[of _ n]) simp
      then show ?thesis ..
    next
      assume "\<exists>k\<ge>Suc n. lookup reg (getRandomInt 1000000 (random k)) = None"
      then obtain k where "Suc n \<le> k" "lookup reg (getRandomInt 1000000 (random k)) = None"
        by blast
      then have "\<exists>k\<ge>n. lookup reg (getRandomInt 1000000 (random k)) = None"
        by (intro exI[of _ k]) simp
      then show ?thesis ..
    qed
  next
    case False
    then show ?thesis by simp
  qed
qed

lemma freshHandlerId_retry_first_free:
  assumes "lookup reg (getRandomInt 1000000 (random (n + j))) = None"
    and "\<forall>j'<j. lookup reg (getRandomInt 1000000 (random (n + j'))) \<noteq> None"
    and "lookup reg handlerId \<noteq> None"
  shows "freshHandlerId random reg handlerId n
           = Some (getRandomInt 1000000 (random (n + j)), Suc (n + j))"
  using assms
proof (induction j arbitrary: n handlerId)
  case 0
  then show ?case by (simp add: freshHandlerId_taken freshHandlerId_free)
next
  case (Suc j)
  from Suc.prems(2) have "lookup reg (getRandomInt 1000000 (random (n + 0))) \<noteq> None"
    by blast
  then have taken: "lookup reg (getRandomInt 1000000 (random n)) \<noteq> None" by simp
  have free: "lookup reg (getRandomInt 1000000 (random (Suc n + j))) = None"
    using Suc.prems(1) by simp
  have before: "\<forall>j'<j. lookup reg (getRandomInt 1000000 (random (Suc n + j'))) \<noteq> None"
  proof (intro allI impI)
    fix j' assume "j' < j"
    then have "Suc j' < Suc j" by simp
    with Suc.prems(2) have "lookup reg (getRandomInt 1000000 (random (n + Suc j'))) \<noteq> None"
      by blast
    then show "lookup reg (getRandomInt 1000000 (random (Suc n + j'))) \<noteq> None" by simp
  qed
  from Suc.IH[OF free before taken] Suc.prems(3) show ?case
    by (simp add: freshHandlerId_taken)
qed

lemma allocation_first_free:
  assumes "lookup reg (getRandomInt 1000000 (random (d + j))) = None"
    and "\<forall>j'<j. lookup reg (getRandomInt 1000000 (random (d + j'))) \<noteq> None"
  shows "freshHandlerId random reg (getRandomInt 1000000 (random d)) (Suc d)
           = Some (getRandomInt 1000000 (random (d + j)), Suc (d + j))"
proof (cases j)
  case 0
  with assms(1) show ?thesis by (simp add: freshHandlerId_free)
next
  case (Suc j0)
  from assms(2) Suc have "lookup reg (getRandomInt 1000000 (random (d + 0))) \<noteq> None"
    by blast
  then have taken: "lookup reg (getRandomInt 1000000 (random d)) \<noteq> None" by simp
  have free: "lookup reg (getRandomInt 1000000 (random (Suc d + j0))) = None"
    using assms(1) Suc by simp
  have before: "\<forall>j'<j0. lookup reg (getRandomInt 1000000 (random (Suc d + j'))) \<noteq> None"
  proof (intro allI impI)
    fix j' assume "j' < j0"
    then have "Suc j' < j" using Suc by simp
    with assms(2) have "lookup reg (getRandomInt 1000000 (random (d + Suc j'))) \<noteq> None"
      by blast
    then show "lookup reg (getRandomInt 1000000 (random (Suc d + j'))) \<noteq> None" by simp
  qed
  from freshHandlerId_retry_first_free[OF free before taken] Suc show ?thesis by simp
qed

lemma free_key_exists:
  assumes "length reg < 1000000"
  shows "\<exists>i<1000000. i \<notin> set (keys reg)"
proof -
  have "card (set (keys reg)) \<le> length reg"
    by (metis card_length keys_def length_map)
  with assms have "card (set (keys reg)) < card {..<1000000::nat}" by simp
  then have "\<not> {..<1000000::nat} \<subseteq> set (keys reg)"
    by (metis List.finite_set card_mono not_less)
  then show ?thesis by auto
qed

lemma recurrent_free_draw:
  assumes "recurrent random" and "length reg < 1000000"
  shows "\<exists>j. lookup reg (getRandomInt 1000000 (random (d + j))) = None"
proof -
  from free_key_exists[OF assms(2)] obtain i where i: "i < 1000000" "i \<notin> set (keys reg)"
    by blast
  from assms(1) i(1) obtain j where "getRandomInt 1000000 (random (d + j)) = i"
    unfolding recurrent_def by blast
  with i(2) have "lookup reg (getRandomInt 1000000 (random (d + j))) = None"
    by (simp add: lookup_None_iff)
  then show ?thesis ..
qed

lemma allocation_returns:
  assumes "lookup reg (getRandomInt 1000000 (random (d + j))) = None"
  shows "\<exists>i m. freshHandlerId random reg (getRandomInt 1000000 (random d)) (Suc d) = Some (i, m)
         \<and> lookup reg i = None \<and> m \<le> Suc (d + j)
         \<and> ((\<forall>k. 0 \<le> random k \<and> random k < 1) \<longrightarrow> i < 1000000)"
proof -
  define j0 where "j0 = (LEAST j. lookup reg (getRandomInt 1000000 (random (d + j))) = None)"
  have j0: "lookup reg (getRandomInt 1000000 (random (d + j0))) = None"
    unfolding j0_def using assms by (rule LeastI)
  have le: "j0 \<le> j" unfolding j0_def using assms by (rule Least_le)
  have before: "\<forall>j'<j0. lookup reg (getRandomInt 1000000 (random (d + j'))) \<noteq> None"
    unfolding j0_def using not_less_Least by blast
  have range: "(\<forall>k. 0 \<le> random k \<and> random k < 1)
      \<longrightarrow> getRandomInt 1000000 (random (d + j0)) < 1000000"
    by (simp add: getRandomInt_range)
  from allocation_first_free[OF j0 before] j0 le range show ?thesis by simp
qed

lemma cycle_hits:
  fixes d i M :: nat
  assumes "i < M"
  shows "(d + (i + (M - d mod M))) mod M = i"
proof -
  have r: "d mod M < M" using assms by simp
  then have a: "d mod M + (i + (M - d mod M)) = i + M" by simp
  have "d + (i + (M - d mod M)) = d div M * M + (d mod M + (i + (M - d mod M)))"
    by (simp add: add.assoc[symmetric])
  also have "\<dots> = d div M * M + (i + M)" by (simp only: a)
  also have "\<dots> = i + Suc (d div M) * M" by simp
  finally have "d + (i + (M - d mod M)) = i + Suc (d div M) * M" .
  then have "(d + (i + (M - d mod M))) mod M = (i + Suc (d div M) * M) mod M"
    by (rule arg_cong)
  also have "\<dots> = i mod M" by (rule mod_mult_self1)
  also have "\<dots> = i" using assms by (rule mod_less)
  finally show ?thesis .
qed

lemma recurrent_cycling_source: "recurrent cycling_source"
  unfolding recurrent_def
proof (intro allI impI)
  fix d i :: nat
  assume i: "i < 1000000"
  define j where "j = i + (1000000 - d mod 1000000)"
  define n where "n = d + j"
  have "n mod 1000000 = i" unfolding n_def j_def using i by (rule cycle_hits)
  then have c: "cycling_source n = real i / real 1000000"
    by (simp add: cycling_source_def)
  have g: "getRandomInt 1000000 (real i / real 1000000) = i"
    by (rule getRandomInt_hits) simp
  have "getRandomInt 1000000 (cycling_source n) = i"
    by (simp only: c g)
  then have "getRandomInt 1000000 (cycling_source (d + j)) = i"
    unfolding n_def .
  then show "\<exists>j. getRandomInt 1000000 (cycling_source (d + j)) = i" ..
qed

lemmas registration_eval =
  handleSignEventRequests_def handlePayInvoiceRequests_def freshHandlerId_free
  freshHandlerId_taken sample_source_def cycling_source_def getRandomInt_def lookup_def
  initial_def

section \<open>Termination of the allocation loop\<close>

text \<open>
  Claim C8, amended. Under the precondition that the registry holds fewer than 1,000,000
  entries, and with a recurrent source of randomness, the loop terminates and returns an
  identity not in use in the registry. More precisely, if one of the numbers
  \<^verbatim>\<open>Math.random()\<close> returns from the loop's first draw on gives a free identity, the loop
  terminates, having drawn no further than that number, and returns an identity not in
  use (below 1,000,000 when the random numbers lie in \<open>[0, 1)\<close>). Whenever the loop
  returns at all, the identity it returns is not in use.
\<close>

theorem allocation_terminates_on_free_draw:
  "(recurrent random \<and> length reg < 1000000 \<longrightarrow>
      (\<exists>i m. freshHandlerId random reg (getRandomInt 1000000 (random d)) (Suc d) = Some (i, m)
         \<and> lookup reg i = None))
   \<and> (lookup reg (getRandomInt 1000000 (random (d + j))) = None \<longrightarrow>
      (\<exists>i m. freshHandlerId random reg (getRandomInt 1000000 (random d)) (Suc d) = Some (i, m)
         \<and> lookup reg i = None \<and> m \<le> Suc (d + j)
         \<and> ((\<forall>k. 0 \<le> random k \<and> random k < 1) \<longrightarrow> i < 1000000)))
   \<and> (freshHandlerId random reg (getRandomInt 1000000 (random d)) (Suc d) = Some (i', m')
        \<longrightarrow> lookup reg i' = None)"
proof -
  have fair: "\<exists>i m. freshHandlerId random reg (getRandomInt 1000000 (random d)) (Suc d) = Some (i, m)
         \<and> lookup reg i = None"
    if "recurrent random \<and> length reg < 1000000"
  proof -
    from that have "recurrent random" "length reg < 1000000" by simp_all
    from recurrent_free_draw[OF this, of d] obtain j0 where
      "lookup reg (getRandomInt 1000000 (random (d + j0))) = None" ..
    from allocation_returns[of reg random d j0, OF this] show ?thesis by blast
  qed
  have draw: "\<exists>i m. freshHandlerId random reg (getRandomInt 1000000 (random d)) (Suc d) = Some (i, m)
         \<and> lookup reg i = None \<and> m \<le> Suc (d + j)
         \<and> ((\<forall>k. 0 \<le> random k \<and> random k < 1) \<longrightarrow> i < 1000000)"
    if "lookup reg (getRandomInt 1000000 (random (d + j))) = None"
    using allocation_returns[of reg random d j, OF that] .
  have part: "lookup reg i' = None"
    if "freshHandlerId random reg (getRandomInt 1000000 (random d)) (Suc d) = Some (i', m')"
    using freshHandlerId_result[OF that] by simp
  from fair draw part show ?thesis by blast
qed

theorem allocation_witness:
  "recurrent cycling_source
   \<and> length [(0::nat, always Throws :: string handler)] < 1000000
   \<and> lookup [(0::nat, always Throws :: string handler)]
        (getRandomInt 1000000 (cycling_source (0 + 1))) = None
   \<and> freshHandlerId cycling_source [(0::nat, always Throws :: string handler)]
        (getRandomInt 1000000 (cycling_source 0)) (Suc 0) = Some (1, 2)
   \<and> lookup [(0::nat, always Throws :: string handler)] 1 = None"
proof -
  have run: "freshHandlerId cycling_source [(0::nat, always Throws :: string handler)]
        (getRandomInt 1000000 (cycling_source 0)) (Suc 0) = Some (1, 2)"
    by (simp add: registration_eval)
  from allocation_terminates_on_free_draw
    [of cycling_source "[(0::nat, always Throws :: string handler)]" 0 1 1 2]
    run recurrent_cycling_source
  show ?thesis by (simp add: cycling_source_def getRandomInt_def lookup_def)
qed

text \<open>
  Claim C8, as stated, fails: the loop has no bound on its retries. With one entry under
  identity 500000 and a source of randomness that returns 0.5 at every call, every draw
  is 500000 and the loop never ends.
\<close>

theorem allocation_may_retry_forever:
  "length [(500000::nat, always Throws :: string handler)] < 1000000
   \<and> freshHandlerId (constant_source (1 / 2)) [(500000::nat, always Throws :: string handler)]
       (getRandomInt 1000000 (constant_source (1 / 2) 0)) (Suc 0) = None"
proof -
  let ?run = "freshHandlerId (constant_source (1 / 2))
       [(500000::nat, always Throws :: string handler)]
       (getRandomInt 1000000 (constant_source (1 / 2) 0)) (Suc 0)"
  have "?run = None"
  proof (rule ccontr)
    assume "?run \<noteq> None"
    then obtain y where "?run = Some y" by auto
    from freshHandlerId_never[OF this] show False
      by (simp add: constant_source_def getRandomInt_def lookup_def)
  qed
  then show ?thesis by simp
qed

section \<open>Properties of registration\<close>

lemma handleSignEventRequests_Some:
  assumes "handleSignEventRequests random h b = Some (i, b')"
  shows "lookup (signEventRequestHandlers b) i = None"
    and "signEventRequestHandlers b' = assign i h (signEventRequestHandlers b)"
    and "payInvoiceRequestHandlers b' = payInvoiceRequestHandlers b"
proof -
  from assms obtain n where
    run: "freshHandlerId random (signEventRequestHandlers b)
            (getRandomInt 1000000 (random (drawn b))) (Suc (drawn b)) = Some (i, n)"
    and b': "b' = b\<lparr>signEventRequestHandlers := assign i h (signEventRequestHandlers b), drawn := n\<rparr>"
    by (auto simp: handleSignEventRequests_def split: option.splits)
  from freshHandlerId_result[OF run] show "lookup (signEventRequestHandlers b) i = None" by simp
  from b' show "signEventRequestHandlers b' = assign i h (signEventRequestHandlers b)" by simp
  from b' show "payInvoiceRequestHandlers b' = payInvoiceRequestHandlers b" by simp
qed

lemma handlePayInvoiceRequests_Some:
  assumes "handlePayInvoiceRequests random h b = Some (i, b')"
  shows "lookup (payInvoiceRequestHandlers b) i = None"
    and "payInvoiceRequestHandlers b' = assign i h (payInvoiceRequestHandlers b)"
    and "signEventRequestHandlers b' = signEventRequestHandlers b"
proof -
  from assms obtain n where
    run: "freshHandlerId random (payInvoiceRequestHandlers b)
            (getRandomInt 1000000 (random (drawn b))) (Suc (drawn b)) = Some (i, n)"
    and b': "b' = b\<lparr>payInvoiceRequestHandlers := assign i h (payInvoiceRequestHandlers b), drawn := n\<rparr>"
    by (auto simp: handlePayInvoiceRequests_def split: option.splits)
  from freshHandlerId_result[OF run] show "lookup (payInvoiceRequestHandlers b) i = None" by simp
  from b' show "payInvoiceRequestHandlers b' = assign i h (payInvoiceRequestHandlers b)" by simp
  from b' show "signEventRequestHandlers b' = signEventRequestHandlers b" by simp
qed

lemma wf_handleSignEventRequests:
  "wf b \<Longrightarrow> handleSignEventRequests random h b = Some (i, b') \<Longrightarrow> wf b'"
  by (simp add: wf_def handleSignEventRequests_Some ordered_assign)

lemma wf_handlePayInvoiceRequests:
  "wf b \<Longrightarrow> handlePayInvoiceRequests random h b = Some (i, b') \<Longrightarrow> wf b'"
  by (simp add: wf_def handlePayInvoiceRequests_Some ordered_assign)

lemma wf_unregister:
  "wf b \<Longrightarrow> wf (unregisterSignEventRequests i b)"
  "wf b \<Longrightarrow> wf (unregisterPayInvoiceRequests i b)"
  by (simp_all add: wf_def unregisterSignEventRequests_def unregisterPayInvoiceRequests_def
      ordered_delete)

lemma wf_initial: "wf initial"
  by (simp add: wf_def initial_def ordered_def keys_def)

lemma wf_run: "wf b \<Longrightarrow> run random cs b = Some (sids, pids, b') \<Longrightarrow> wf b'"
proof (induction random cs b arbitrary: sids pids rule: run.induct)
  case (1 random b)
  then show ?case by simp
next
  case (2 random h cs b)
  from 2(3) obtain i b1 sids' where
    reg: "handleSignEventRequests random h b = Some (i, b1)"
    and rest: "run random cs b1 = Some (sids', pids, b')"
    by (auto split: option.splits)
  from wf_handleSignEventRequests[OF 2(2) reg] have "wf b1" .
  from 2(1)[OF reg refl this rest] show ?case .
next
  case (3 random h cs b)
  from 3(3) obtain i b1 pids' where
    reg: "handlePayInvoiceRequests random h b = Some (i, b1)"
    and rest: "run random cs b1 = Some (sids, pids', b')"
    by (auto split: option.splits)
  from wf_handlePayInvoiceRequests[OF 3(2) reg] have "wf b1" .
  from 3(1)[OF reg refl this rest] show ?case .
next
  case (4 random i cs b)
  then show ?case by (simp add: wf_unregister)
next
  case (5 random i cs b)
  then show ?case by (simp add: wf_unregister)
qed

lemma reachable_wf: "reachable random b \<Longrightarrow> wf b"
  unfolding reachable_def using wf_run[OF wf_initial] by blast

lemma run_registrations:
  "list_all is_registration cs \<Longrightarrow> run random cs b = Some (sids, pids, b') \<Longrightarrow>
     distinct sids \<and> distinct pids
     \<and> set sids \<inter> set (keys (signEventRequestHandlers b)) = {}
     \<and> set pids \<inter> set (keys (payInvoiceRequestHandlers b)) = {}
     \<and> set (keys (signEventRequestHandlers b')) = set (keys (signEventRequestHandlers b)) \<union> set sids
     \<and> set (keys (payInvoiceRequestHandlers b')) = set (keys (payInvoiceRequestHandlers b)) \<union> set pids
     \<and> length sids = length (filter is_sign_registration cs)
     \<and> length pids = length (filter is_pay_registration cs)"
proof (induction random cs b arbitrary: sids pids rule: run.induct)
  case (1 random b)
  then show ?case by simp
next
  case (2 random h cs b)
  from 2(3) obtain i b1 sids' where
    reg: "handleSignEventRequests random h b = Some (i, b1)"
    and rest: "run random cs b1 = Some (sids', pids, b')"
    and sids: "sids = i # sids'"
    by (auto split: option.splits)
  from 2(2) have "list_all is_registration cs" by simp
  note IH = 2(1)[OF reg refl this rest]
  note step = handleSignEventRequests_Some[OF reg]
  from step(1) have fresh: "i \<notin> set (keys (signEventRequestHandlers b))"
    by (simp add: lookup_None_iff)
  have k1: "set (keys (signEventRequestHandlers b1)) = insert i (set (keys (signEventRequestHandlers b)))"
    by (simp add: step(2) keys_assign)
  from IH fresh k1 step(3) sids show ?case by auto
next
  case (3 random h cs b)
  from 3(3) obtain i b1 pids' where
    reg: "handlePayInvoiceRequests random h b = Some (i, b1)"
    and rest: "run random cs b1 = Some (sids, pids', b')"
    and pids: "pids = i # pids'"
    by (auto split: option.splits)
  from 3(2) have "list_all is_registration cs" by simp
  note IH = 3(1)[OF reg refl this rest]
  note step = handlePayInvoiceRequests_Some[OF reg]
  from step(1) have fresh: "i \<notin> set (keys (payInvoiceRequestHandlers b))"
    by (simp add: lookup_None_iff)
  have k1: "set (keys (payInvoiceRequestHandlers b1)) = insert i (set (keys (payInvoiceRequestHandlers b)))"
    by (simp add: step(2) keys_assign)
  from IH fresh k1 step(3) pids show ?case by auto
next
  case (4 random i cs b)
  then show ?case by simp
next
  case (5 random i cs b)
  then show ?case by simp
qed


lemma length_assign: "lookup reg k = None \<Longrightarrow> length (assign k h reg) = Suc (length reg)"
  by (induction reg) (auto simp: lookup_def split: if_splits)

lemma handleSignEventRequests_returns:
  assumes "recurrent random" and "length (signEventRequestHandlers b) < 1000000"
  shows "\<exists>i b'. handleSignEventRequests random h b = Some (i, b')"
proof -
  from recurrent_free_draw[OF assms] obtain j where
    "lookup (signEventRequestHandlers b) (getRandomInt 1000000 (random (drawn b + j))) = None" ..
  from allocation_returns[of "signEventRequestHandlers b" random "drawn b" j, OF this]
  show ?thesis by (auto simp: handleSignEventRequests_def)
qed

lemma handlePayInvoiceRequests_returns:
  assumes "recurrent random" and "length (payInvoiceRequestHandlers b) < 1000000"
  shows "\<exists>i b'. handlePayInvoiceRequests random h b = Some (i, b')"
proof -
  from recurrent_free_draw[OF assms] obtain j where
    "lookup (payInvoiceRequestHandlers b) (getRandomInt 1000000 (random (drawn b + j))) = None" ..
  from allocation_returns[of "payInvoiceRequestHandlers b" random "drawn b" j, OF this]
  show ?thesis by (auto simp: handlePayInvoiceRequests_def)
qed

lemma run_returns:
  "recurrent random \<Longrightarrow> list_all is_registration cs \<Longrightarrow>
   length (signEventRequestHandlers b) + length (filter is_sign_registration cs) \<le> 1000000 \<Longrightarrow>
   length (payInvoiceRequestHandlers b) + length (filter is_pay_registration cs) \<le> 1000000 \<Longrightarrow>
   run random cs b \<noteq> None"
proof (induction random cs b rule: run.induct)
  case (1 random b)
  then show ?case by simp
next
  case (2 random h cs b)
  from 2(4) have room: "length (signEventRequestHandlers b) < 1000000" by simp
  from handleSignEventRequests_returns[OF 2(2) room] obtain i b1 where
    reg: "handleSignEventRequests random h b = Some (i, b1)" by blast
  note step = handleSignEventRequests_Some[OF reg]
  have l1: "length (signEventRequestHandlers b1) = Suc (length (signEventRequestHandlers b))"
    by (simp add: step(2) length_assign[OF step(1)])
  from 2(3) have regs: "list_all is_registration cs" by simp
  from 2(4) l1 have s: "length (signEventRequestHandlers b1)
      + length (filter is_sign_registration cs) \<le> 1000000" by simp
  from 2(5) step(3) have p: "length (payInvoiceRequestHandlers b1)
      + length (filter is_pay_registration cs) \<le> 1000000" by simp
  from 2(1)[OF reg refl 2(2) regs s p] reg show ?case by (auto split: option.splits)
next
  case (3 random h cs b)
  from 3(5) have room: "length (payInvoiceRequestHandlers b) < 1000000" by simp
  from handlePayInvoiceRequests_returns[OF 3(2) room] obtain i b1 where
    reg: "handlePayInvoiceRequests random h b = Some (i, b1)" by blast
  note step = handlePayInvoiceRequests_Some[OF reg]
  have l1: "length (payInvoiceRequestHandlers b1) = Suc (length (payInvoiceRequestHandlers b))"
    by (simp add: step(2) length_assign[OF step(1)])
  from 3(3) have regs: "list_all is_registration cs" by simp
  from 3(5) l1 have p: "length (payInvoiceRequestHandlers b1)
      + length (filter is_pay_registration cs) \<le> 1000000" by simp
  from 3(4) step(3) have s: "length (signEventRequestHandlers b1)
      + length (filter is_sign_registration cs) \<le> 1000000" by simp
  from 3(1)[OF reg refl 3(2) regs s p] reg show ?case by (auto split: option.splits)
next
  case (4 random i cs b)
  then show ?case by simp
next
  case (5 random i cs b)
  then show ?case by simp
qed

section \<open>Distinct identities\<close>

text \<open>
  Claim C6. In every state the two registries can reach, by registrations and
  unregistrations in any order, no registry holds a key twice. Any run of \<open>N\<close>
  registrations, in one registry or interleaved between the two, with no
  unregistration among them, hands out pairwise distinct identities per registry, one
  for each registration, none of them in use before, and all of them keys afterwards.
  With a recurrent source of randomness and registries that have room for the new
  entries, every such run returns.
\<close>

theorem identities_are_distinct:
  "(reachable random b \<longrightarrow>
      distinct (keys (signEventRequestHandlers b)) \<and> distinct (keys (payInvoiceRequestHandlers b)))
   \<and> (list_all is_registration cs \<and> run random cs b0 = Some (sids, pids, b') \<longrightarrow>
      distinct sids \<and> distinct pids
      \<and> length sids = length (filter is_sign_registration cs)
      \<and> length pids = length (filter is_pay_registration cs)
      \<and> set sids \<inter> set (keys (signEventRequestHandlers b0)) = {}
      \<and> set pids \<inter> set (keys (payInvoiceRequestHandlers b0)) = {}
      \<and> set (keys (signEventRequestHandlers b')) = set (keys (signEventRequestHandlers b0)) \<union> set sids
      \<and> set (keys (payInvoiceRequestHandlers b')) = set (keys (payInvoiceRequestHandlers b0)) \<union> set pids)
   \<and> (recurrent random \<and> list_all is_registration cs
        \<and> length (signEventRequestHandlers b0) + length (filter is_sign_registration cs) \<le> 1000000
        \<and> length (payInvoiceRequestHandlers b0) + length (filter is_pay_registration cs) \<le> 1000000
      \<longrightarrow> run random cs b0 \<noteq> None)"
proof -
  have inv: "distinct (keys (signEventRequestHandlers b)) \<and> distinct (keys (payInvoiceRequestHandlers b))"
    if "reachable random b"
  proof -
    from that have "wf b" by (rule reachable_wf)
    then show ?thesis by (simp add: wf_def ordered_distinct)
  qed
  have regs: "distinct sids \<and> distinct pids
      \<and> length sids = length (filter is_sign_registration cs)
      \<and> length pids = length (filter is_pay_registration cs)
      \<and> set sids \<inter> set (keys (signEventRequestHandlers b0)) = {}
      \<and> set pids \<inter> set (keys (payInvoiceRequestHandlers b0)) = {}
      \<and> set (keys (signEventRequestHandlers b')) = set (keys (signEventRequestHandlers b0)) \<union> set sids
      \<and> set (keys (payInvoiceRequestHandlers b')) = set (keys (payInvoiceRequestHandlers b0)) \<union> set pids"
    if "list_all is_registration cs \<and> run random cs b0 = Some (sids, pids, b')"
  proof -
    from that have "list_all is_registration cs" "run random cs b0 = Some (sids, pids, b')"
      by simp_all
    from run_registrations[OF this] show ?thesis by simp
  qed
  have total: "run random cs b0 \<noteq> None"
    if "recurrent random \<and> list_all is_registration cs
        \<and> length (signEventRequestHandlers b0) + length (filter is_sign_registration cs) \<le> 1000000
        \<and> length (payInvoiceRequestHandlers b0) + length (filter is_pay_registration cs) \<le> 1000000"
    using that run_returns[of random cs b0] by blast
  from inv regs total show ?thesis by blast
qed

lemma run_three_registrations:
  "run cycling_source three_registrations initial
     = Some ([0, 2], [1], after_three_registrations)"
  by (simp add: three_registrations_def after_three_registrations_def registration_eval)

theorem identities_are_distinct_witness:
  "reachable cycling_source after_three_registrations
   \<and> distinct (keys (signEventRequestHandlers after_three_registrations))
   \<and> recurrent cycling_source
   \<and> list_all is_registration three_registrations
   \<and> length (signEventRequestHandlers initial)
        + length (filter is_sign_registration three_registrations) \<le> 1000000
   \<and> length (payInvoiceRequestHandlers initial)
        + length (filter is_pay_registration three_registrations) \<le> 1000000
   \<and> run cycling_source three_registrations initial
        = Some ([0, 2], [1], after_three_registrations)
   \<and> distinct [0::nat, 2]"
proof -
  have r: "reachable cycling_source after_three_registrations"
    unfolding reachable_def using run_three_registrations by blast
  have l: "list_all is_registration three_registrations"
    "length (signEventRequestHandlers initial)
        + length (filter is_sign_registration three_registrations) \<le> 1000000"
    "length (payInvoiceRequestHandlers initial)
        + length (filter is_pay_registration three_registrations) \<le> 1000000"
    by (simp_all add: three_registrations_def initial_def)
  from identities_are_distinct
    [of cycling_source after_three_registrations three_registrations initial
        "[0, 2]" "[1]" after_three_registrations]
    r l run_three_registrations recurrent_cycling_source
  show ?thesis by simp
qed

section \<open>Unregistering\<close>

text \<open>
  Claim C7. Running an unregister closure twice leaves the registries as running it once
  does, and after it the identity is not a key. Running it for an identity that is not a
  key changes nothing. \<^verbatim>\<open>delete\<close> on a plain object never throws, so the closure is a
  total function of the state. In particular this holds for the closure a registration
  has just returned, whose identity holds the registered handler until then.
\<close>

theorem unregister_idempotent:
  "unregisterSignEventRequests i (unregisterSignEventRequests i b) = unregisterSignEventRequests i b
   \<and> unregisterPayInvoiceRequests i (unregisterPayInvoiceRequests i b) = unregisterPayInvoiceRequests i b
   \<and> lookup (signEventRequestHandlers (unregisterSignEventRequests i b)) i = None
   \<and> lookup (payInvoiceRequestHandlers (unregisterPayInvoiceRequests i b)) i = None
   \<and> (lookup (signEventRequestHandlers b) i = None \<longrightarrow> unregisterSignEventRequests i b = b)
   \<and> (lookup (payInvoiceRequestHandlers b) i = None \<longrightarrow> unregisterPayInvoiceRequests i b = b)
   \<and> (handleSignEventRequests random sh b = Some (sid, sb) \<longrightarrow>
        lookup (signEventRequestHandlers sb) sid = Some sh
        \<and> lookup (signEventRequestHandlers (unregisterSignEventRequests sid sb)) sid = None
        \<and> unregisterSignEventRequests sid (unregisterSignEventRequests sid sb)
            = unregisterSignEventRequests sid sb)
   \<and> (handlePayInvoiceRequests random ph b = Some (pid, pb) \<longrightarrow>
        lookup (payInvoiceRequestHandlers pb) pid = Some ph
        \<and> lookup (payInvoiceRequestHandlers (unregisterPayInvoiceRequests pid pb)) pid = None
        \<and> unregisterPayInvoiceRequests pid (unregisterPayInvoiceRequests pid pb)
            = unregisterPayInvoiceRequests pid pb)"
proof -
  have twice: "unregisterSignEventRequests k (unregisterSignEventRequests k c) = unregisterSignEventRequests k c"
    "unregisterPayInvoiceRequests k (unregisterPayInvoiceRequests k c) = unregisterPayInvoiceRequests k c"
    for k c
    by (simp_all add: unregisterSignEventRequests_def unregisterPayInvoiceRequests_def delete_twice)
  have gone: "lookup (signEventRequestHandlers (unregisterSignEventRequests k c)) k = None"
    "lookup (payInvoiceRequestHandlers (unregisterPayInvoiceRequests k c)) k = None" for k c
    by (simp_all add: unregisterSignEventRequests_def unregisterPayInvoiceRequests_def lookup_delete)
  have absent: "lookup (signEventRequestHandlers b) i = None \<longrightarrow> unregisterSignEventRequests i b = b"
    "lookup (payInvoiceRequestHandlers b) i = None \<longrightarrow> unregisterPayInvoiceRequests i b = b"
    by (simp_all add: unregisterSignEventRequests_def unregisterPayInvoiceRequests_def
        lookup_None_iff delete_absent)
  have s: "lookup (signEventRequestHandlers sb) sid = Some sh"
    if "handleSignEventRequests random sh b = Some (sid, sb)"
    using handleSignEventRequests_Some(2)[OF that] by (simp add: lookup_assign)
  have p: "lookup (payInvoiceRequestHandlers pb) pid = Some ph"
    if "handlePayInvoiceRequests random ph b = Some (pid, pb)"
    using handlePayInvoiceRequests_Some(2)[OF that] by (simp add: lookup_assign)
  from twice gone absent s p show ?thesis by simp
qed

theorem unregister_idempotent_witness:
  "handleSignEventRequests sample_source (always (Returns (JBool False))) initial
     = Some (0, registered_once)
   \<and> handlePayInvoiceRequests sample_source (always (Returns (JBool False))) initial
     = Some (0, paying_once)
   \<and> lookup (signEventRequestHandlers initial) 0 = None
   \<and> lookup (payInvoiceRequestHandlers initial) 0 = None
   \<and> unregisterSignEventRequests 0 initial = initial
   \<and> unregisterPayInvoiceRequests 0 initial = initial
   \<and> lookup (signEventRequestHandlers (unregisterSignEventRequests 0 registered_once)) 0 = None
   \<and> lookup (payInvoiceRequestHandlers (unregisterPayInvoiceRequests 0 paying_once)) 0 = None"
proof -
  have s: "handleSignEventRequests sample_source (always (Returns (JBool False))) initial
     = Some (0, registered_once)"
    by (simp add: registered_once_def registration_eval)
  have p: "handlePayInvoiceRequests sample_source (always (Returns (JBool False))) initial
     = Some (0, paying_once)"
    by (simp add: paying_once_def registration_eval)
  have a: "lookup (signEventRequestHandlers initial) 0 = None"
    "lookup (payInvoiceRequestHandlers initial) 0 = None"
    by (simp_all add: initial_def lookup_def)
  from unregister_idempotent
    [of 0 initial sample_source "always (Returns (JBool False))" 0 registered_once
        "always (Returns (JBool False))" 0 paying_once] s p a
  show ?thesis by simp
qed

section \<open>One handler registered twice\<close>









section \<open>Validation of the login form\<close>

text \<open>
  Claim C10. \<open>isValidNsec\<close> is a total boolean function of the string: it is true exactly
  when \<^verbatim>\<open>nip19.decode\<close> returns an object whose type is "nsec", and false otherwise, in
  particular when \<^verbatim>\<open>decode\<close> throws. A submission of the login form calls \<^verbatim>\<open>set_nsec\<close>
  only with the submitted string and only if \<open>isValidNsec\<close> holds of it; otherwise it
  shows "Invalid nsec." and calls nothing.
\<close>

theorem isValidNsec_total:
  "isValidNsec decode s = (\<exists>result. decode s = Inr result \<and> decoded_type result = ''nsec'')
   \<and> (decode s = Inl e \<longrightarrow> isValidNsec decode s = False)
   \<and> (Invoke_set_nsec s' \<in> set (handleSubmit decode accepts values)
        \<longrightarrow> s' = nsec values \<and> isValidNsec decode s' = True)
   \<and> (isValidNsec decode (nsec values) = False
        \<longrightarrow> handleSubmit decode accepts values = [FormMessage ''Invalid nsec.''])"
  by (auto simp: isValidNsec_def handleSubmit_def formSchema_def onSubmit_def
      split: sum.splits if_splits)

theorem isValidNsec_total_witness:
  "sample_decode ''hello'' = Inl (Error ''Unknown prefix'')
   \<and> isValidNsec sample_decode ''hello'' = False
   \<and> Invoke_set_nsec ''nsec1abc'' \<in> set (handleSubmit sample_decode (\<lambda>s. True) \<lparr>nsec = ''nsec1abc''\<rparr>)
   \<and> isValidNsec sample_decode ''nsec1abc'' = True
   \<and> isValidNsec sample_decode ''npub1xyz'' = False
   \<and> handleSubmit sample_decode (\<lambda>s. True) \<lparr>nsec = ''npub1xyz''\<rparr> = [FormMessage ''Invalid nsec.'']"
proof -
  have a: "sample_decode ''hello'' = Inl (Error ''Unknown prefix'')"
    by (simp add: sample_decode_def)
  have b: "Invoke_set_nsec ''nsec1abc''
      \<in> set (handleSubmit sample_decode (\<lambda>s. True) \<lparr>nsec = ''nsec1abc''\<rparr>)"
    by (simp add: handleSubmit_def formSchema_def onSubmit_def isValidNsec_def sample_decode_def)
  have c: "isValidNsec sample_decode (nsec \<lparr>nsec = ''npub1xyz''\<rparr>) = False"
    by (simp add: isValidNsec_def sample_decode_def)
  from isValidNsec_total[of sample_decode "''hello''" "Error ''Unknown prefix''"
      "''nsec1abc''" "\<lambda>s. True" "\<lparr>nsec = ''nsec1abc''\<rparr>"]
    isValidNsec_total[of sample_decode "''hello''" "Error ''Unknown prefix''"
      "''nsec1abc''" "\<lambda>s. True" "\<lparr>nsec = ''npub1xyz''\<rparr>"] a b c
  show ?thesis by simp
qed

end
